theory Spec2Isabelle
  imports Complex_Main "HOL-Library.Signed_Division"
begin

section \<open>Prime sieves of \<^verbatim>\<open>boost/math/special_functions/prime_sieve.hpp\<close>\<close>

text \<open>
  The template parameter \<^verbatim>\<open>Integer\<close> is read as a signed integer type wide enough
  that no arithmetic on it overflows, so its values are the mathematical integers.
  Containers and raw arrays are lists. Every access to an array or to the storage behind
  an iterator is checked against the length of the list: where C++ has undefined
  behaviour the embedding returns an error value and stops.
\<close>

subsection \<open>Errors and checked accesses\<close>

datatype error =
    OutOfBounds     \<comment> \<open>an array, vector or iterator is read or written outside its storage\<close>
  | FloatDomain     \<comment> \<open>a floating-point result that is infinite or NaN is converted to Integer\<close>
  | BadAlloc        \<comment> \<open>an array is allocated with a size that is not a count\<close>
  | DivByZero       \<comment> \<open>integer division by zero\<close>
  | NegativeCast    \<comment> \<open>a negative Integer is converted to \<^verbatim>\<open>std::size_t\<close> and used as a size\<close>

type_synonym 'a result = "error + 'a"

definition in_bounds :: "'a list \<Rightarrow> int \<Rightarrow> bool" where
  "in_bounds xs k = (0 \<le> k \<and> nat k < length xs)"

text \<open>
  \<^verbatim>\<open>static_cast<std::size_t>(x)\<close> where the result is the size of an allocation: a
  negative \<open>x\<close> wraps around to a size that no allocation can have, and the allocation
  throws.
\<close>

definition to_size_t :: "int \<Rightarrow> nat result" where
  "to_size_t x = (if x < 0 then Inl NegativeCast else Inr (nat x))"

text \<open>
  \<^verbatim>\<open>static_cast<Integer>(std::floor(std::sqrt(static_cast<double>(x))))\<close>, as the real
  number it stands for; the square root of a negative number is NaN.
\<close>

definition floor_sqrt :: "int \<Rightarrow> int result" where
  "floor_sqrt x = (if x < 0 then Inl FloatDomain else Inr \<lfloor>sqrt (real_of_int x)\<rfloor>)"

text \<open>\<^verbatim>\<open>std::vector::resize\<close>: keeps the leading elements, value-initialises new ones.\<close>

definition resize :: "nat \<Rightarrow> int list \<Rightarrow> int list" where
  "resize k xs = take k xs @ replicate (k - length xs) 0"

subsection \<open>\<^verbatim>\<open>upper_bound_prime_count\<close>\<close>

text \<open>
  \<^verbatim>\<open>constexpr auto c = 30 * log(113) / 113; return floor(c * x / log(x));\<close>
  The source computes in \<^verbatim>\<open>double\<close>; the embedding takes the real-number value of
  the same expression. At \<^verbatim>\<open>x = 0\<close> IEEE arithmetic gives \<^verbatim>\<open>0 / -inf = -0.0\<close>, which
  converts to 0. At \<^verbatim>\<open>x = 1\<close> the quotient is infinite and for negative \<^verbatim>\<open>x\<close> the
  logarithm is NaN; converting either to Integer is undefined.
\<close>

definition upper_bound_prime_count :: "int \<Rightarrow> int result" where
  "upper_bound_prime_count x =
     (if x = 0 then Inr 0
      else if x < 0 \<or> x = 1 then Inl FloatDomain
      else Inr \<lfloor>(30 * ln 113 / 113) * real_of_int x / ln (real_of_int x)\<rfloor>)"

subsection \<open>\<^verbatim>\<open>linear_sieve\<close>\<close>

text \<open>
  The state of \<^verbatim>\<open>linear_sieve\<close>: the table \<^verbatim>\<open>least_divisors\<close>, the storage
  \<open>out_buf\<close> that the output iterator walks (index 0 is \<^verbatim>\<open>first\<close>), and
  \<open>out_pos\<close>, the distance \<^verbatim>\<open>resultant_primes - first\<close> of the iterator from
  where it started.
\<close>

record sieve_state =
  least_divisors :: "int list"
  out_buf :: "int list"
  out_pos :: nat

text \<open>
  The inner loop.
  \<^verbatim>\<open>
  for (Integer j = 0; j < resultant_primes - first
                      && i * resultant_primes[j] <= upper_bound
                      && resultant_primes[j] <= least_divisors[i]
                      && j < least_divisors_size;                     ++j)
  {
      least_divisors[i * resultant_primes[j]] = resultant_primes[j];
  }
  \<close>
  \<^verbatim>\<open>resultant_primes\<close> is the iterator that \<^verbatim>\<open>*resultant_primes++ = i\<close> has advanced,
  so \<^verbatim>\<open>resultant_primes[j]\<close> is the element \<open>j\<close> places after the current position:
  index \<open>out_pos + j\<close> of the storage, not index \<open>j\<close>.
\<close>

function linear_sieve_inner :: "int \<Rightarrow> int \<Rightarrow> nat \<Rightarrow> sieve_state \<Rightarrow> sieve_state result" where
  "linear_sieve_inner upper_bound i j s =
     (if \<not> j < out_pos s then Inr s
      else if \<not> out_pos s + j < length (out_buf s) then Inl OutOfBounds
      else if \<not> i * (out_buf s ! (out_pos s + j)) \<le> upper_bound then Inr s
      else if \<not> in_bounds (least_divisors s) i then Inl OutOfBounds
      else if \<not> out_buf s ! (out_pos s + j) \<le> least_divisors s ! nat i then Inr s
      else if \<not> int j < upper_bound + 1 then Inr s
      else if \<not> in_bounds (least_divisors s) (i * (out_buf s ! (out_pos s + j)))
        then Inl OutOfBounds
      else linear_sieve_inner upper_bound i (Suc j)
             (s\<lparr>least_divisors :=
                  (least_divisors s)[nat (i * (out_buf s ! (out_pos s + j)))
                                       := out_buf s ! (out_pos s + j)]\<rparr>))"
  by pat_completeness auto
termination
  by (relation "measure (\<lambda>(upper_bound, i, j, s). out_pos s - j)") auto

text \<open>
  One round of the outer loop before the inner loop runs:
  \<^verbatim>\<open>
  if (least_divisors[i] == 0)
  {
      least_divisors[i] = i;
      *resultant_primes++ = i;
  }
  \<close>
\<close>

definition linear_sieve_emit :: "int \<Rightarrow> sieve_state \<Rightarrow> sieve_state result" where
  "linear_sieve_emit i s =
     (if \<not> in_bounds (least_divisors s) i then Inl OutOfBounds
      else if least_divisors s ! nat i = 0
        then (if out_pos s < length (out_buf s)
              then Inr (s\<lparr>least_divisors := (least_divisors s)[nat i := i],
                           out_buf := (out_buf s)[out_pos s := i],
                           out_pos := Suc (out_pos s)\<rparr>)
              else Inl OutOfBounds)
      else Inr s)"

text \<open>\<^verbatim>\<open>for (Integer i{2}; i < upper_bound; ++i)\<close>\<close>

function linear_sieve_loop :: "int \<Rightarrow> int \<Rightarrow> sieve_state \<Rightarrow> sieve_state result" where
  "linear_sieve_loop upper_bound i s =
     (if \<not> i < upper_bound then Inr s
      else (case linear_sieve_emit i s of
              Inl e \<Rightarrow> Inl e
            | Inr s1 \<Rightarrow>
                (case linear_sieve_inner upper_bound i 0 s1 of
                   Inl e \<Rightarrow> Inl e
                 | Inr s2 \<Rightarrow> linear_sieve_loop upper_bound (i + 1) s2)))"
  by pat_completeness auto
termination
  by (relation "measure (\<lambda>(upper_bound, i, s). nat (upper_bound - i))") auto

text \<open>
  The whole function, from the allocation of the table to the state at \<^verbatim>\<open>return\<close>.
  \<^verbatim>\<open>new Integer[least_divisors_size]{0}\<close> has one initialiser, so a size below 1 throws
  \<^verbatim>\<open>std::bad_array_new_length\<close>; the other elements are zero.
\<close>

definition linear_sieve_run :: "int \<Rightarrow> int list \<Rightarrow> sieve_state result" where
  "linear_sieve_run upper_bound storage =
     (if upper_bound + 1 < 1 then Inl BadAlloc
      else linear_sieve_loop upper_bound 2
             \<lparr>least_divisors = replicate (nat (upper_bound + 1)) 0,
              out_buf = storage, out_pos = 0\<rparr>)"

text \<open>
  \<^verbatim>\<open>linear_sieve(upper_bound, first)\<close> gives back the storage as written and the
  distance \<^verbatim>\<open>last - first\<close> of the returned iterator.
\<close>

definition linear_sieve :: "int \<Rightarrow> int list \<Rightarrow> (int list \<times> nat) result" where
  "linear_sieve upper_bound storage =
     (case linear_sieve_run upper_bound storage of
        Inl e \<Rightarrow> Inl e
      | Inr s \<Rightarrow> Inr (out_buf s, out_pos s))"

text \<open>
  \<^verbatim>\<open>
  resultant_primes.resize(upper_bound_prime_count(upper_bound));
  auto const first = std::begin(resultant_primes);
  auto const last = linear_sieve(upper_bound, first);
  resultant_primes.resize(last - first);
  \<close>
\<close>

definition linear_sieve_container :: "int \<Rightarrow> int list \<Rightarrow> int list result" where
  "linear_sieve_container upper_bound resultant_primes =
     (case upper_bound_prime_count upper_bound of
        Inl e \<Rightarrow> Inl e
      | Inr c \<Rightarrow>
          (case linear_sieve upper_bound (resize (nat c) resultant_primes) of
             Inl e \<Rightarrow> Inl e
           | Inr (storage, n_written) \<Rightarrow> Inr (resize n_written storage)))"

subsection \<open>\<^verbatim>\<open>mask_sieve\<close>\<close>

text \<open>
  The marking loop of one base prime, from the value \<open>j\<close> on:
  \<^verbatim>\<open>for(Integer j {...}; j < upper_bound; j += prime) is_prime[static_cast<std::size_t>(j - lower_bound)] = false;\<close>
  The loop is never entered with \<open>prime = 0\<close>, where the division in its initialiser
  has failed before; that branch only makes the recursion well-founded.
\<close>

function mask_sieve_mark :: "int \<Rightarrow> int \<Rightarrow> int \<Rightarrow> int \<Rightarrow> bool list \<Rightarrow> bool list result" where
  "mask_sieve_mark lower_bound upper_bound prime j is_prime =
     (if \<not> j < upper_bound then Inr is_prime
      else if \<not> in_bounds is_prime (j - lower_bound) then Inl OutOfBounds
      else if prime = 0 then Inl DivByZero
      else mask_sieve_mark lower_bound upper_bound prime (j + prime)
             (is_prime[nat (j - lower_bound) := False]))"
  by pat_completeness auto
termination
  by (relation "measure (\<lambda>(lower_bound, upper_bound, prime, j, is_prime).
        if 0 < prime then nat (upper_bound - j) else nat (j - lower_bound + 1))")
     (auto simp: in_bounds_def)

text \<open>
  The value the marking loop of one base prime starts at:
  \<^verbatim>\<open>std::max(static_cast<std::size_t>(prime * prime), static_cast<std::size_t>((lower_bound + prime - 1) / prime * prime))\<close>,
  converted back to Integer. The division of C++ truncates towards zero (\<open>sdiv\<close>).
  When the second operand is negative its conversion to \<^verbatim>\<open>std::size_t\<close> wraps around to
  a value above every square in range, \<^verbatim>\<open>std::max\<close> picks it, and the conversion back
  to a built-in signed Integer gives the negative value again.
\<close>

definition mask_sieve_first :: "int \<Rightarrow> int \<Rightarrow> int" where
  "mask_sieve_first lower_bound prime =
     (if (lower_bound + prime - 1) sdiv prime * prime < 0
      then (lower_bound + prime - 1) sdiv prime * prime
      else max (prime * prime) ((lower_bound + prime - 1) sdiv prime * prime))"

text \<open>
  \<^verbatim>\<open>std::for_each(std::execution::par, primes.begin(), it, ...)\<close>: every task only writes
  \<^verbatim>\<open>false\<close>, so the tasks are run one after the other, in the order of the container.
\<close>

fun mask_sieve_each :: "int \<Rightarrow> int \<Rightarrow> int list \<Rightarrow> bool list \<Rightarrow> bool list result" where
  "mask_sieve_each lower_bound upper_bound [] is_prime = Inr is_prime"
| "mask_sieve_each lower_bound upper_bound (prime # rest) is_prime =
     (if prime = 0 then Inl DivByZero
      else (case mask_sieve_mark lower_bound upper_bound prime
                   (mask_sieve_first lower_bound prime) is_prime of
              Inl e \<Rightarrow> Inl e
            | Inr marked \<Rightarrow> mask_sieve_each lower_bound upper_bound rest marked))"

text \<open>
  \<^verbatim>\<open>for(Integer i{lower_bound}; i <= upper_bound; ++i) if(is_prime[static_cast<std::size_t>(i - lower_bound)]) resultant_primes.emplace_back(i);\<close>
\<close>

function mask_sieve_collect :: "int \<Rightarrow> int \<Rightarrow> int \<Rightarrow> bool list \<Rightarrow> int list \<Rightarrow> int list result" where
  "mask_sieve_collect lower_bound upper_bound i is_prime resultant_primes =
     (if \<not> i \<le> upper_bound then Inr resultant_primes
      else if \<not> in_bounds is_prime (i - lower_bound) then Inl OutOfBounds
      else mask_sieve_collect lower_bound upper_bound (i + 1) is_prime
             (if is_prime ! nat (i - lower_bound) then resultant_primes @ [i]
              else resultant_primes))"
  by pat_completeness auto
termination
  by (relation "measure (\<lambda>(lower_bound, upper_bound, i, is_prime, resultant_primes).
        nat (upper_bound + 1 - i))") auto

text \<open>
  \<^verbatim>\<open>mask_sieve(lower_bound, upper_bound, primes, resultant_primes)\<close>: the base primes
  are the leading elements of \<^verbatim>\<open>primes\<close> below \<^verbatim>\<open>limit\<close>; the mask has
  \<^verbatim>\<open>upper_bound - lower_bound + 1\<close> entries, all \<^verbatim>\<open>true\<close> at first.
\<close>

definition mask_sieve_primes :: "int \<Rightarrow> int \<Rightarrow> int list \<Rightarrow> int list \<Rightarrow> int list result" where
  "mask_sieve_primes lower_bound upper_bound primes resultant_primes =
     (case floor_sqrt upper_bound of
        Inl e \<Rightarrow> Inl e
      | Inr r \<Rightarrow>
          (case to_size_t (upper_bound - lower_bound + 1) of
             Inl e \<Rightarrow> Inl e
           | Inr n \<Rightarrow>
               (case mask_sieve_each lower_bound upper_bound
                       (takeWhile (\<lambda>p. p < r + 1) primes) (replicate n True) of
                  Inl e \<Rightarrow> Inl e
                | Inr marked \<Rightarrow>
                    (if lower_bound = 1
                     then (if 0 < length marked
                           then mask_sieve_collect lower_bound upper_bound lower_bound
                                  (marked[0 := False]) resultant_primes
                           else Inl OutOfBounds)
                     else mask_sieve_collect lower_bound upper_bound lower_bound
                            marked resultant_primes))))"

text \<open>
  \<^verbatim>\<open>mask_sieve(lower_bound, upper_bound, resultant_primes)\<close>: the base primes come from
  \<^verbatim>\<open>linear_sieve_container(limit, primes)\<close> on a new vector, with
  \<^verbatim>\<open>limit = floor(sqrt(upper_bound)) + 1\<close>. The source declares \<^verbatim>\<open>limit\<close> with
  \<^verbatim>\<open>auto\<close>, which makes it a \<^verbatim>\<open>double\<close>; its value is an integer and is taken as
  one here.
\<close>

definition mask_sieve :: "int \<Rightarrow> int \<Rightarrow> int list \<Rightarrow> int list result" where
  "mask_sieve lower_bound upper_bound resultant_primes =
     (case floor_sqrt upper_bound of
        Inl e \<Rightarrow> Inl e
      | Inr r \<Rightarrow>
          (case linear_sieve_container (r + 1) [] of
             Inl e \<Rightarrow> Inl e
           | Inr primes \<Rightarrow> mask_sieve_primes lower_bound upper_bound primes resultant_primes))"

subsection \<open>\<^verbatim>\<open>IntervalSieve\<close>\<close>

text \<open>
  The class \<^verbatim>\<open>IntervalSieve\<close> of
  \<^verbatim>\<open>boost/math/special_functions/interval_sieve.hpp\<close> (its constructor and
  \<^verbatim>\<open>NewRange\<close>) is not among the sources; only its callers are. Its three definitions
  follow section 4.2 of the specification.
\<close>

text \<open>
  Modelled from the spec: the constructor of \<^verbatim>\<open>IntervalSieve\<close>, which is missing,
  clears for each base prime \<open>p\<close> "every multiple of p inside the window starting at
  max(p*p, first multiple of p >= lo)". This is the value where the clearing starts.
\<close>

definition interval_sieve_start :: "int \<Rightarrow> int \<Rightarrow> int" where
  "interval_sieve_start lo p = max (p * p) ((lo + p - 1) div p * p)"

text \<open>
  Modelled from the spec: the bitmask of the missing \<^verbatim>\<open>IntervalSieve\<close> is cleared at
  \<open>x\<close> when \<open>x\<close> is a multiple of some base prime, at or after the start for that prime.
\<close>

definition interval_sieve_cleared :: "int \<Rightarrow> int list \<Rightarrow> int \<Rightarrow> bool" where
  "interval_sieve_cleared lo base_primes x =
     list_ex (\<lambda>p. p dvd x \<and> interval_sieve_start lo p \<le> x) base_primes"

text \<open>
  Modelled from the spec: the constructor of the missing \<^verbatim>\<open>IntervalSieve\<close>
  "sieves [lo, hi)"; "if lo == 1, position 0 (value 1) is forced non-prime regardless of
  mask state"; it "emits surviving positions, translated back to absolute values, into
  the output sequence in ascending order".
\<close>

definition interval_sieve :: "int \<Rightarrow> int \<Rightarrow> int list \<Rightarrow> int list \<Rightarrow> int list" where
  "interval_sieve lo hi base_primes output =
     output @ filter (\<lambda>x. \<not> (lo = 1 \<and> x = lo) \<and> \<not> interval_sieve_cleared lo base_primes x)
                [lo..hi - 1]"

text \<open>
  Modelled from the spec: \<^verbatim>\<open>IntervalSieve::NewRange\<close>, which is missing, "resets the
  bitmask and lo/hi without reconstructing the base-prime dependency": the object keeps
  the base primes it was constructed with and sieves the new window with them.
\<close>

definition interval_sieve_new_range :: "int list \<Rightarrow> int \<Rightarrow> int \<Rightarrow> int list \<Rightarrow> int list" where
  "interval_sieve_new_range base_primes lo hi output = interval_sieve lo hi base_primes output"

subsection \<open>\<^verbatim>\<open>segmented_sieve\<close>\<close>

definition L1_SIZE :: int where
  "L1_SIZE = 32768"

definition interval :: int where
  "interval = L1_SIZE * 8"

text \<open>
  \<^verbatim>\<open>static_cast<double>(x) / std::log(static_cast<double>(x))\<close>, the quotient of the
  capacity hints, as a real number. At \<open>x = 0\<close> IEEE arithmetic gives
  \<^verbatim>\<open>0 / -inf = -0.0\<close>; at \<open>x = 1\<close> the quotient is infinite and for negative \<open>x\<close> it
  is NaN, which no later step makes finite again.
\<close>

definition x_over_log :: "int \<Rightarrow> real result" where
  "x_over_log x =
     (if x = 0 then Inr 0
      else if x < 0 \<or> x = 1 then Inl FloatDomain
      else Inr (real_of_int x / ln (real_of_int x)))"

text \<open>
  The conversion of a \<^verbatim>\<open>double\<close> to \<^verbatim>\<open>std::size_t\<close> truncates towards zero; it is
  undefined when the truncated value is negative (the vector then throws
  \<^verbatim>\<open>std::length_error\<close> on the size the conversion happens to give).
\<close>

definition double_to_size_t :: "real \<Rightarrow> nat result" where
  "double_to_size_t v = (if v \<le> - 1 then Inl FloatDomain else Inr (nat \<lfloor>v\<rfloor>))"

text \<open>
  \<^verbatim>\<open>
  auto primes_in_range {static_cast<std::size_t>(static_cast<double>(current_upper_bound) / std::log(static_cast<double>(current_upper_bound)) -
                        static_cast<double>(current_lower_bound) / std::log(static_cast<double>(current_lower_bound)))};
  \<close>
  The value is only passed to \<^verbatim>\<open>reserve\<close>, which leaves the contents of a vector as
  they are; what matters is whether the conversion is defined.
\<close>

definition primes_in_range :: "int \<Rightarrow> int \<Rightarrow> nat result" where
  "primes_in_range current_lower_bound current_upper_bound =
     (case x_over_log current_upper_bound of
        Inl e \<Rightarrow> Inl e
      | Inr a \<Rightarrow>
          (case x_over_log current_lower_bound of
             Inl e \<Rightarrow> Inl e
           | Inr b \<Rightarrow> double_to_size_t (a - b)))"

text \<open>
  The loop that starts one task per full window; task \<open>i\<close> sieves
  \<^verbatim>\<open>[current_lower_bound, current_upper_bound)\<close> into \<^verbatim>\<open>prime_vectors[i]\<close>, a vector of
  its own. The result is the vectors in the order of their index and the value of
  \<^verbatim>\<open>current_lower_bound\<close> after the loop.
\<close>

fun segmented_sieve_tasks :: "nat \<Rightarrow> int \<Rightarrow> int \<Rightarrow> int list \<Rightarrow> int list list \<times> int" where
  "segmented_sieve_tasks 0 current_lower_bound current_upper_bound primes =
     ([], current_lower_bound)"
| "segmented_sieve_tasks (Suc k) current_lower_bound current_upper_bound primes =
     (case segmented_sieve_tasks k current_upper_bound (current_upper_bound + interval) primes of
        (vs, final_lower_bound) \<Rightarrow>
          (interval_sieve current_lower_bound current_upper_bound primes [] # vs,
           final_lower_bound))"

text \<open>
  \<^verbatim>\<open>segmented_sieve(lower_bound, upper_bound, primes, resultant_primes)\<close>: the number of
  full windows and the capacity hint \<^verbatim>\<open>primes_in_range\<close> of the first window are
  computed before any task starts. After the loop one more task sieves
  \<^verbatim>\<open>[current_lower_bound, upper_bound)\<close> into the last vector; all futures are joined
  and the vectors are appended to \<^verbatim>\<open>resultant_primes\<close> in the order of their index.
\<close>

definition segmented_sieve_primes :: "int \<Rightarrow> int \<Rightarrow> int list \<Rightarrow> int list \<Rightarrow> int list result" where
  "segmented_sieve_primes lower_bound upper_bound primes resultant_primes =
     (case to_size_t ((upper_bound - lower_bound) sdiv interval) of
        Inl e \<Rightarrow> Inl e
      | Inr ranges \<Rightarrow>
          (case primes_in_range lower_bound
                  (if lower_bound + interval > upper_bound then upper_bound
                   else lower_bound + interval) of
             Inl e \<Rightarrow> Inl e
           | Inr hint \<Rightarrow>
               (case segmented_sieve_tasks ranges lower_bound
                       (if lower_bound + interval > upper_bound then upper_bound
                        else lower_bound + interval) primes of
                  (vs, current_lower_bound) \<Rightarrow>
                    Inr (resultant_primes
                         @ concat (vs @ [interval_sieve current_lower_bound upper_bound
                                           primes []])))))"

definition linear_sieve_limit :: int where
  "linear_sieve_limit = 4096"

text \<open>
  \<^verbatim>\<open>segmented_sieve(lower_bound, upper_bound, resultant_primes)\<close>: the base primes up to
  \<^verbatim>\<open>limit = floor(sqrt(upper_bound)) + 1\<close> are sieved first, into a new vector, after
  \<^verbatim>\<open>primes.reserve(static_cast<double>(limit) / std::log(static_cast<double>(limit)))\<close>.
\<close>

definition segmented_sieve :: "int \<Rightarrow> int \<Rightarrow> int list \<Rightarrow> int list result" where
  "segmented_sieve lower_bound upper_bound resultant_primes =
     (case floor_sqrt upper_bound of
        Inl e \<Rightarrow> Inl e
      | Inr r \<Rightarrow>
          (case (case x_over_log (r + 1) of Inl e \<Rightarrow> Inl e | Inr a \<Rightarrow> double_to_size_t a) of
             Inl e \<Rightarrow> Inl e
           | Inr hint \<Rightarrow>
               (case (if r + 1 < linear_sieve_limit then linear_sieve_container (r + 1) []
                      else (case linear_sieve_container linear_sieve_limit [] of
                              Inl e \<Rightarrow> Inl e
                            | Inr primes \<Rightarrow>
                                segmented_sieve_primes linear_sieve_limit (r + 1) primes primes)) of
                  Inl e \<Rightarrow> Inl e
                | Inr primes \<Rightarrow>
                    segmented_sieve_primes lower_bound upper_bound primes resultant_primes)))"

subsection \<open>\<^verbatim>\<open>sequential_segmented_sieve\<close>\<close>

text \<open>
  \<^verbatim>\<open>
  for(std::size_t i {}; i < ranges; ++i)
  {
      current_lower_bound = current_upper_bound;
      current_upper_bound += interval;
      if(current_upper_bound > upper_bound) current_upper_bound = upper_bound;
      sieve.NewRange(current_lower_bound, current_upper_bound, resultant_primes);
  }
  \<close>
\<close>

fun sequential_segmented_sieve_loop :: "nat \<Rightarrow> int \<Rightarrow> int \<Rightarrow> int list \<Rightarrow> int list \<Rightarrow> int list" where
  "sequential_segmented_sieve_loop 0 current_upper_bound upper_bound base_primes resultant_primes =
     resultant_primes"
| "sequential_segmented_sieve_loop (Suc k) current_upper_bound upper_bound base_primes resultant_primes =
     sequential_segmented_sieve_loop k
       (if current_upper_bound + interval > upper_bound then upper_bound
        else current_upper_bound + interval)
       upper_bound base_primes
       (interval_sieve_new_range base_primes current_upper_bound
          (if current_upper_bound + interval > upper_bound then upper_bound
           else current_upper_bound + interval)
          resultant_primes)"

text \<open>
  The sieve object is constructed with \<^verbatim>\<open>resultant_primes\<close> both as its base primes
  and as its output; the base primes are the contents at that moment.
\<close>

definition sequential_segmented_sieve :: "int \<Rightarrow> int \<Rightarrow> int list \<Rightarrow> int list result" where
  "sequential_segmented_sieve lower_bound upper_bound resultant_primes =
     (case to_size_t ((upper_bound - lower_bound) sdiv interval) of
        Inl e \<Rightarrow> Inl e
      | Inr ranges \<Rightarrow>
          Inr (sequential_segmented_sieve_loop ranges
                 (if lower_bound + interval > upper_bound then upper_bound
                  else lower_bound + interval)
                 upper_bound resultant_primes
                 (interval_sieve lower_bound
                    (if lower_bound + interval > upper_bound then upper_bound
                     else lower_bound + interval)
                    resultant_primes resultant_primes)))"

subsection \<open>\<^verbatim>\<open>prime_sieve\<close> and \<^verbatim>\<open>prime_range\<close>\<close>

text \<open>
  The execution policies of \<^verbatim>\<open><execution>\<close>; the source compares
  \<^verbatim>\<open>typeid(policy)\<close> with \<^verbatim>\<open>typeid(std::execution::seq)\<close>.
\<close>

datatype execution_policy = Seq | Par | Par_unseq | Unseq

text \<open>
  In the last branch the two threads work on vectors of their own (\<^verbatim>\<open>small_primes\<close>
  and \<^verbatim>\<open>primes\<close>) and are both joined, so they are run one after the other.
\<close>

definition prime_sieve :: "execution_policy \<Rightarrow> int \<Rightarrow> int list \<Rightarrow> int list result" where
  "prime_sieve policy upper_bound primes =
     (if upper_bound = 2 then Inr primes
      else if upper_bound \<le> linear_sieve_limit then linear_sieve_container upper_bound primes
      else if policy = Seq then
        (case linear_sieve_container linear_sieve_limit primes of
           Inl e \<Rightarrow> Inl e
         | Inr sieved \<Rightarrow> sequential_segmented_sieve linear_sieve_limit upper_bound sieved)
      else
        (case linear_sieve_container (linear_sieve_limit * 2) [] of
           Inl e \<Rightarrow> Inl e
         | Inr small_primes \<Rightarrow>
             (case segmented_sieve (linear_sieve_limit * 2) upper_bound primes of
                Inl e \<Rightarrow> Inl e
              | Inr sieved \<Rightarrow> Inr (small_primes @ sieved))))"

text \<open>
  The trimming scan at the end of \<^verbatim>\<open>prime_range\<close>:
  \<^verbatim>\<open>while(*it < lower_bound && it != primes.end()) ++it;\<close>
  The element is read first, then the iterator is compared with the end. The result is
  the distance of \<^verbatim>\<open>it\<close> from \<^verbatim>\<open>primes.begin()\<close> when the loop stops.
\<close>

function prime_range_scan :: "int \<Rightarrow> int list \<Rightarrow> nat \<Rightarrow> nat result" where
  "prime_range_scan lower_bound primes it =
     (if \<not> it < length primes then Inl OutOfBounds
      else if \<not> primes ! it < lower_bound then Inr it
      else if \<not> it \<noteq> length primes then Inr it
      else prime_range_scan lower_bound primes (Suc it))"
  by pat_completeness auto
termination
  by (relation "measure (\<lambda>(lower_bound, primes, it). length primes - it)") auto

text \<open>\<^verbatim>\<open>primes.erase(primes.begin(), it)\<close> after the scan.\<close>

definition prime_range_trim :: "int \<Rightarrow> int list \<Rightarrow> int list result" where
  "prime_range_trim lower_bound primes =
     (case prime_range_scan lower_bound primes 0 of
        Inl e \<Rightarrow> Inl e
      | Inr it \<Rightarrow> Inr (drop it primes))"

text \<open>
  The branches of \<^verbatim>\<open>prime_range\<close> before the trimming scan. Its two capacity hints,
  \<^verbatim>\<open>small_primes.reserve(1028)\<close> and \<^verbatim>\<open>prime_reserve(limit, small_primes)\<close> with
  \<^verbatim>\<open>limit\<close> above 8192, are always defined and leave the contents as they are.
\<close>

definition prime_range_sieve :: "execution_policy \<Rightarrow> int \<Rightarrow> int \<Rightarrow> int \<Rightarrow> int list \<Rightarrow> int list result" where
  "prime_range_sieve policy limit lower_bound upper_bound primes =
     (if upper_bound \<le> linear_sieve_limit then linear_sieve_container upper_bound primes
      else if policy = Seq then
        (if limit \<le> linear_sieve_limit then
           (case linear_sieve_container limit primes of
              Inl e \<Rightarrow> Inl e
            | Inr sieved \<Rightarrow>
                (if lower_bound \<le> limit
                 then sequential_segmented_sieve limit upper_bound sieved
                 else sequential_segmented_sieve lower_bound upper_bound sieved))
         else
           (case linear_sieve_container linear_sieve_limit primes of
              Inl e \<Rightarrow> Inl e
            | Inr sieved \<Rightarrow>
                (case sequential_segmented_sieve linear_sieve_limit limit sieved of
                   Inl e \<Rightarrow> Inl e
                 | Inr sieved2 \<Rightarrow> sequential_segmented_sieve lower_bound upper_bound sieved2)))
      else
        (if limit \<le> linear_sieve_limit * 2 then
           (case linear_sieve_container limit [] of
              Inl e \<Rightarrow> Inl e
            | Inr small_primes \<Rightarrow>
                (case (if lower_bound \<le> limit then segmented_sieve limit upper_bound primes
                       else segmented_sieve lower_bound upper_bound primes) of
                   Inl e \<Rightarrow> Inl e
                 | Inr sieved \<Rightarrow> Inr (small_primes @ sieved)))
         else
           (case linear_sieve_container (linear_sieve_limit * 2) [] of
              Inl e \<Rightarrow> Inl e
            | Inr small_primes \<Rightarrow>
                (case segmented_sieve (linear_sieve_limit * 2) limit primes of
                   Inl e \<Rightarrow> Inl e
                 | Inr sieved \<Rightarrow>
                     segmented_sieve lower_bound upper_bound (small_primes @ sieved)))))"

text \<open>
  \<^verbatim>\<open>prime_range(policy, lower_bound, upper_bound, primes)\<close>: \<^verbatim>\<open>limit\<close> is computed
  first; \<^verbatim>\<open>upper_bound == 2\<close> returns before anything is sieved or trimmed.
\<close>

definition prime_range :: "execution_policy \<Rightarrow> int \<Rightarrow> int \<Rightarrow> int list \<Rightarrow> int list result" where
  "prime_range policy lower_bound upper_bound primes =
     (case floor_sqrt upper_bound of
        Inl e \<Rightarrow> Inl e
      | Inr r \<Rightarrow>
          (if upper_bound = 2 then Inr primes
           else (case prime_range_sieve policy (r + 1) lower_bound upper_bound primes of
                   Inl e \<Rightarrow> Inl e
                 | Inr sieved \<Rightarrow> prime_range_trim lower_bound sieved)))"

subsection \<open>Notions used to state the properties\<close>

text \<open>
  The primes as the specification words them: the integers from 2 on "with no divisor
  other than 1 and itself", and those of a half-open range in ascending order.
\<close>

definition no_proper_divisor :: "int \<Rightarrow> bool" where
  "no_proper_divisor p = (2 \<le> p \<and> list_all (\<lambda>d. \<not> d dvd p) [2..p - 1])"

definition primes_between :: "int \<Rightarrow> int \<Rightarrow> int list" where
  "primes_between lo hi = filter no_proper_divisor [lo..hi - 1]"

text \<open>
  The state of \<^verbatim>\<open>linear_sieve\<close> in which every integer from 2 up to, and without, \<open>i\<close>
  has been written to the output and has itself as its table entry, and nothing else has
  been written to a table of \<open>n + 1\<close> entries and a storage of \<open>cap\<close> elements.
\<close>

definition sieve_state_at :: "int \<Rightarrow> nat \<Rightarrow> int \<Rightarrow> sieve_state" where
  "sieve_state_at n cap i =
     \<lparr>least_divisors = map (\<lambda>k. if 2 \<le> int k \<and> int k < i then int k else 0) [0..<nat (n + 1)],
      out_buf = map (\<lambda>k. if int k < i - 2 then int k + 2 else 0) [0..<cap],
      out_pos = nat (i - 2)\<rparr>"

text \<open>
  A decomposition of \<open>[lo, hi)\<close> into consecutive windows is given by its inner
  boundaries \<open>cuts\<close>, in ascending order between \<open>lo\<close> and \<open>hi\<close>.
\<close>

fun windows_of :: "int \<Rightarrow> int list \<Rightarrow> int \<Rightarrow> (int \<times> int) list" where
  "windows_of lo [] hi = [(lo, hi)]"
| "windows_of lo (c # cuts) hi = (lo, c) # windows_of c cuts hi"

text \<open>The inner boundaries of the windows of \<^verbatim>\<open>segmented_sieve\<close>: \<open>k\<close> of them, \<^verbatim>\<open>interval\<close> apart.\<close>

fun window_cuts :: "nat \<Rightarrow> int \<Rightarrow> int list" where
  "window_cuts 0 c = []"
| "window_cuts (Suc k) c = c # window_cuts k (c + interval)"

definition segmented_sieve_cuts :: "int \<Rightarrow> int \<Rightarrow> int list" where
  "segmented_sieve_cuts lower_bound upper_bound =
     window_cuts (nat ((upper_bound - lower_bound) div interval)) (lower_bound + interval)"

section \<open>Properties\<close>

subsection \<open>The floating-point expressions, as real numbers\<close>

lemma ln_pow_less: "0 < a \<Longrightarrow> 0 < b \<Longrightarrow> a ^ m < b ^ n \<Longrightarrow> real m * ln a < real n * ln (b::real)"
  by (metis ln_less_cancel_iff ln_realpow zero_less_power)

lemma ln_pow_le: "0 < a \<Longrightarrow> 0 < b \<Longrightarrow> a ^ m \<le> b ^ n \<Longrightarrow> real m * ln a \<le> real n * ln (b::real)"
  by (metis ln_le_cancel_iff ln_realpow zero_less_power)

text \<open>
  The value of \<^verbatim>\<open>upper_bound_prime_count\<close> at \<open>n\<close> is \<open>k\<close> when
  \<open>k \<le> 30 * ln 113 * n / (113 * ln n) < k + 1\<close>; two comparisons of powers of \<open>n\<close> and
  113 bound the quotient of the logarithms by fractions.
\<close>

lemma upper_bound_prime_count_eq:
  fixes n k p q p' q' :: nat
  assumes n: "2 \<le> n" and q: "0 < q" "0 < q'"
    and lower: "n ^ p \<le> 113 ^ q" "113 * k * q \<le> 30 * n * p"
    and upper: "113 ^ q' < n ^ p'" "30 * n * p' \<le> 113 * (k + 1) * q'"
  shows "upper_bound_prime_count (int n) = Inr (int k)"
proof -
  let ?L = "ln (real n)"
  let ?M = "ln (113::real)"
  have npos: "0 < real n" and lpos: "0 < ?L" using n by simp_all
  have "(real n) ^ p \<le> 113 ^ q"
    using lower(1) by (metis of_nat_le_iff of_nat_numeral of_nat_power)
  then have h1: "real p * ?L \<le> real q * ?M"
    using ln_pow_le [OF npos, of 113 p q] by simp
  have "(113::real) ^ q' < (real n) ^ p'"
    using upper(1) by (metis of_nat_less_iff of_nat_numeral of_nat_power)
  then have h2: "real q' * ?M < real p' * ?L"
    using ln_pow_less [OF _ npos, of 113 q' p'] by simp
  have "real (113 * k * q) \<le> real (30 * n * p)"
    using lower(2) by (rule of_nat_mono)
  then have "real (113 * k * q) * ?L \<le> real (30 * n * p) * ?L"
    using lpos by (intro mult_right_mono) simp_all
  also have "\<dots> = real (30 * n) * (real p * ?L)" by simp
  also have "\<dots> \<le> real (30 * n) * (real q * ?M)"
    using h1 by (intro mult_left_mono) simp_all
  finally have "real q * (real (113 * k) * ?L) \<le> real q * (real (30 * n) * ?M)"
    by (simp add: mult_ac)
  then have a: "real (113 * k) * ?L \<le> real (30 * n) * ?M"
    using q(1) by simp
  have "real q' * (real (30 * n) * ?M) = real (30 * n) * (real q' * ?M)" by simp
  also have "\<dots> < real (30 * n) * (real p' * ?L)"
    using h2 n by (intro mult_strict_left_mono) simp_all
  also have "\<dots> = real (30 * n * p') * ?L" by simp
  also have "\<dots> \<le> real (113 * (k + 1) * q') * ?L"
    using of_nat_mono [OF upper(2), where ?'a = real] lpos by (intro mult_right_mono) simp_all
  finally have "real q' * (real (30 * n) * ?M) < real q' * (real (113 * (k + 1)) * ?L)"
    by (simp add: mult_ac)
  then have b: "real (30 * n) * ?M < real (113 * (k + 1)) * ?L"
    using q(2) by simp
  have "\<lfloor>(30 * ln 113 / 113) * real n / ln (real n)\<rfloor> = int k"
  proof (rule floor_unique)
    show "of_int (int k) \<le> (30 * ln 113 / 113) * real n / ln (real n)"
      using a lpos by (simp add: field_simps)
    show "(30 * ln 113 / 113) * real n / ln (real n) < of_int (int k) + 1"
      using b lpos by (simp add: field_simps)
  qed
  then show ?thesis using n by (simp add: upper_bound_prime_count_def)
qed

lemma upper_bound_prime_count_10: "upper_bound_prime_count 10 = Inr 5"
  using upper_bound_prime_count_eq [where n = 10 and k = 5 and p = 2 and q = 1 and p' = 11 and q' = 5]
  by simp

lemma upper_bound_prime_count_3: "upper_bound_prime_count 3 = Inr 3"
  using upper_bound_prime_count_eq [where n = 3 and k = 3 and p = 4 and q = 1 and p' = 5 and q' = 1]
  by simp

lemma upper_bound_prime_count_less:
  assumes "4 \<le> n"
  shows "\<exists>c. upper_bound_prime_count n = Inr c \<and> 0 \<le> c \<and> c < n"
proof -
  let ?x = "real_of_int n"
  have c4: "30 * ln (113::real) < 113 * ln 4"
    using ln_pow_less [of 113 4 30 113] by simp
  have l4: "ln (4::real) \<le> ln ?x" using assms by simp
  have pos: "0 < ln ?x" using assms by simp
  have xpos: "0 < ?x" using assms by simp
  have "(30 * ln 113 / 113) < ln ?x" using c4 l4 by simp
  then have "(30 * ln 113 / 113) * ?x < ln ?x * ?x" using xpos by simp
  then have lt: "(30 * ln 113 / 113) * ?x / ln ?x < ?x"
    using pos by (simp add: field_simps)
  have ge: "0 \<le> (30 * ln 113 / 113) * ?x / ln ?x"
    using pos xpos by simp
  have "\<lfloor>(30 * ln 113 / 113) * ?x / ln ?x\<rfloor> < n"
    using lt by (simp add: floor_less_iff)
  moreover have "0 \<le> \<lfloor>(30 * ln 113 / 113) * ?x / ln ?x\<rfloor>"
    using ge by simp
  ultimately show ?thesis using assms by (simp add: upper_bound_prime_count_def)
qed

lemma floor_sqrt_eq:
  assumes "0 \<le> r" "r * r \<le> x" "x < (r + 1) * (r + 1)"
  shows "floor_sqrt x = Inr r"
proof -
  have x0: "0 \<le> x" using assms by (meson mult_nonneg_nonneg order_trans)
  have "\<lfloor>sqrt (real_of_int x)\<rfloor> = r"
  proof (rule floor_unique)
    have "(real_of_int r)\<^sup>2 \<le> real_of_int x"
      using assms(2) by (metis of_int_le_iff of_int_mult power2_eq_square)
    then show "of_int r \<le> sqrt (real_of_int x)" by (rule real_le_rsqrt)
    have "real_of_int x < (real_of_int r + 1)\<^sup>2"
      using assms(3) by (metis of_int_less_iff of_int_mult of_int_add of_int_1 power2_eq_square)
    then show "sqrt (real_of_int x) < of_int r + 1"
      using assms(1) by (intro real_less_lsqrt) simp_all
  qed
  then show ?thesis using x0 by (simp add: floor_sqrt_def)
qed

lemma floor_sqrt_ge:
  assumes "0 \<le> r" "r * r \<le> x"
  shows "\<exists>s. floor_sqrt x = Inr s \<and> r \<le> s"
proof -
  have x0: "0 \<le> x" using assms by (meson mult_nonneg_nonneg order_trans)
  have "(real_of_int r)\<^sup>2 \<le> real_of_int x"
    using assms(2) by (metis of_int_le_iff of_int_mult power2_eq_square)
  then have "of_int r \<le> sqrt (real_of_int x)" by (rule real_le_rsqrt)
  then have "r \<le> \<lfloor>sqrt (real_of_int x)\<rfloor>" by (simp add: le_floor_iff)
  then show ?thesis using x0 by (simp add: floor_sqrt_def)
qed

text \<open>
  The capacity hint of \<^verbatim>\<open>segmented_sieve\<close> is defined on every window from 2 on:
  \<open>x / ln x\<close> grows from 3 on, takes the same value at 2 and at 4, and at 3 is less
  than 1 below its value at 2.
\<close>

lemma ln_3_ge_1: "1 \<le> ln (3::real)"
  using exp_le by (simp add: ln_ge_iff)

lemma x_over_ln_mono:
  fixes x y :: real
  assumes "3 \<le> x" "x \<le> y"
  shows "x / ln x \<le> y / ln y"
proof -
  have x0: "0 < x" and y0: "0 < y" using assms by simp_all
  have "ln (3::real) \<le> ln x"
    using assms(1) by (subst ln_le_cancel_iff) simp_all
  then have lx: "1 \<le> ln x" using ln_3_ge_1 by simp
  have "ln x \<le> ln y"
    using assms(2) x0 y0 by (subst ln_le_cancel_iff) simp_all
  then have ly: "1 \<le> ln y" using lx by simp
  have "ln y = ln x + ln (y / x)" using x0 y0 by (simp add: ln_div)
  moreover have "ln (y / x) \<le> y / x - 1"
    using x0 y0 by (intro ln_le_minus_one) simp
  ultimately have "x * ln y \<le> x * ln x + x * (y / x - 1)"
    using x0 by (simp add: distrib_left)
  also have "\<dots> = x * ln x + (y - x)" using x0 by (simp add: field_simps)
  also have "\<dots> \<le> x * ln x + (y - x) * ln x"
    using lx assms(2) by (simp add: mult_le_cancel_left1)
  also have "\<dots> = y * ln x" by (simp add: algebra_simps)
  finally have "x * ln y \<le> y * ln x" .
  then show ?thesis using lx ly by (simp add: field_simps)
qed

lemma ratio_4_eq_2: "4 / ln (4::real) = 2 / ln 2"
proof -
  have "ln (4::real) = ln (2 ^ 2)" by simp
  also have "\<dots> = 2 * ln 2" by (simp add: ln_realpow del: power_numeral)
  finally show ?thesis by simp
qed

lemma ratio_3_vs_2: "- 1 < 3 / ln (3::real) - 2 / ln 2"
proof -
  have l2: "0 < ln (2::real)" by simp
  have l3: "0 < ln (3::real)" by simp
  have "ln ((3::real) ^ 5) \<le> ln (2 ^ 8)" by (subst ln_le_cancel_iff) simp_all
  then have a: "5 * ln (3::real) \<le> 8 * ln 2" by (simp add: ln_realpow del: power_numeral)
  have b: "ln (2::real) \<le> ln 2 * ln 3" using ln_3_ge_1 l2 by simp
  have "2 * ln (3::real) < 3 * ln 2 + ln 2 * ln 3" using a b l2 by linarith
  then have "2 / ln (2::real) < 3 / ln 3 + 1" using l2 l3 by (simp add: field_simps)
  then show ?thesis by simp
qed

lemma primes_in_range_defined:
  assumes "2 \<le> lo" "lo \<le> hi"
  shows "\<exists>n. primes_in_range lo hi = Inr n"
proof -
  let ?f = "\<lambda>x::int. real_of_int x / ln (real_of_int x)"
  have "- 1 < ?f hi - ?f lo"
  proof (cases "3 \<le> lo")
    case True
    then have "?f lo \<le> ?f hi" using assms by (intro x_over_ln_mono) simp_all
    then show ?thesis by simp
  next
    case False
    then have lo: "lo = 2" using assms by simp
    consider "hi = 2" | "hi = 3" | "4 \<le> hi" using assms lo by linarith
    then show ?thesis
    proof cases
      case 1
      then show ?thesis using lo by simp
    next
      case 2
      then show ?thesis using lo ratio_3_vs_2 by simp
    next
      case 3
      have "4 / ln (4::real) \<le> ?f hi"
        using 3 x_over_ln_mono [of 4 "real_of_int hi"] by simp
      then show ?thesis using lo ratio_4_eq_2 by simp
    qed
  qed
  then show ?thesis
    using assms by (simp add: primes_in_range_def x_over_log_def double_to_size_t_def)
qed

subsection \<open>\<^verbatim>\<open>linear_sieve\<close> on a storage of zeros\<close>

text \<open>
  On a storage of zeros every element that the inner loop reads is 0, so the loop only
  ever writes 0 to entry 0 of the table, and it reads the \<open>out_pos\<close> elements from
  index \<open>out_pos\<close> on: it leaves the storage when that has fewer than \<open>2 * out_pos\<close>
  elements.
\<close>

lemma linear_sieve_inner_zeros:
  assumes zeros: "\<And>k. out_pos s \<le> k \<Longrightarrow> k < length (out_buf s) \<Longrightarrow> out_buf s ! k = 0"
    and ld0: "0 < length (least_divisors s)" "least_divisors s ! 0 = 0"
    and ldi: "in_bounds (least_divisors s) i" "0 \<le> least_divisors s ! nat i"
    and ub: "0 \<le> upper_bound" "int (out_pos s) \<le> upper_bound + 1"
  shows "linear_sieve_inner upper_bound i j s =
           (if j < out_pos s \<and> length (out_buf s) < 2 * out_pos s then Inl OutOfBounds else Inr s)"
proof (induction "out_pos s - j" arbitrary: j)
  case 0
  then show ?case by (subst linear_sieve_inner.simps) simp
next
  case (Suc d)
  then have j: "j < out_pos s" and d: "d = out_pos s - Suc j" by simp_all
  show ?case
  proof (cases "out_pos s + j < length (out_buf s)")
    case False
    then show ?thesis using j by (subst linear_sieve_inner.simps) simp
  next
    case True
    then have z: "out_buf s ! (out_pos s + j) = 0" using zeros by simp
    have same: "s\<lparr>least_divisors := (least_divisors s)[0 := 0]\<rparr> = s"
      using ld0 by (metis list_update_id sieve_state.surjective sieve_state.update_convs(1))
    have "linear_sieve_inner upper_bound i j s = linear_sieve_inner upper_bound i (Suc j) s"
      using j True z ld0 ldi ub same
      by (subst linear_sieve_inner.simps) (simp add: in_bounds_def)
    also have "\<dots> = (if Suc j < out_pos s \<and> length (out_buf s) < 2 * out_pos s
                      then Inl OutOfBounds else Inr s)"
      using Suc.hyps(1) [OF d] .
    finally show ?thesis using j True by auto
  qed
qed

lemma linear_sieve_emit_at:
  assumes "2 \<le> i" "i < n"
  shows "linear_sieve_emit i (sieve_state_at n cap i) =
           (if nat (i - 2) < cap then Inr (sieve_state_at n cap (i + 1)) else Inl OutOfBounds)"
proof -
  have ld: "(map (\<lambda>k. if 2 \<le> int k \<and> int k < i then int k else 0) [0..<nat (n + 1)])[nat i := i]
          = map (\<lambda>k. if 2 \<le> int k \<and> int k < i + 1 then int k else 0) [0..<nat (n + 1)]"
    by (intro nth_equalityI) (use assms in \<open>auto simp: nth_list_update\<close>)
  have buf: "(map (\<lambda>k. if int k < i - 2 then int k + 2 else 0) [0..<cap])[nat (i - 2) := i]
          = map (\<lambda>k. if int k < i + 1 - 2 then int k + 2 else 0) [0..<cap]"
    if "nat (i - 2) < cap"
  proof (rule nth_equalityI)
    fix k
    assume "k < length ((map (\<lambda>k. if int k < i - 2 then int k + 2 else 0) [0..<cap])[nat (i - 2) := i])"
    then have k: "k < cap" by simp
    show "(map (\<lambda>k. if int k < i - 2 then int k + 2 else 0) [0..<cap])[nat (i - 2) := i] ! k
            = map (\<lambda>k. if int k < i + 1 - 2 then int k + 2 else 0) [0..<cap] ! k"
    proof (cases "k = nat (i - 2)")
      case True
      then show ?thesis using k assms by simp
    next
      case False
      then show ?thesis using k assms by (simp add: nth_list_update) linarith
    qed
  qed simp
  have pos: "Suc (nat (i - 2)) = nat (i + 1 - 2)" using assms by simp
  show ?thesis
    using assms ld buf pos
    by (simp add: linear_sieve_emit_def sieve_state_at_def in_bounds_def)
qed

lemma linear_sieve_inner_at:
  assumes "2 \<le> i" "i < n"
  shows "linear_sieve_inner n i 0 (sieve_state_at n cap (i + 1)) =
           (if int cap \<le> 2 * i - 3 then Inl OutOfBounds else Inr (sieve_state_at n cap (i + 1)))"
proof -
  let ?s = "sieve_state_at n cap (i + 1)"
  have "linear_sieve_inner n i 0 ?s =
          (if 0 < out_pos ?s \<and> length (out_buf ?s) < 2 * out_pos ?s then Inl OutOfBounds else Inr ?s)"
    using assms
    by (intro linear_sieve_inner_zeros) (auto simp: sieve_state_at_def in_bounds_def)
  moreover have "out_pos ?s = nat (i - 1)" "length (out_buf ?s) = cap"
    by (simp_all add: sieve_state_at_def)
  ultimately show ?thesis using assms by auto
qed

lemma linear_sieve_loop_at:
  assumes "2 \<le> i" "i \<le> n"
  shows "linear_sieve_loop n i (sieve_state_at n cap i) =
           (if i < n \<and> int cap \<le> 2 * n - 5 then Inl OutOfBounds else Inr (sieve_state_at n cap n))"
  using assms
proof (induction "nat (n - i)" arbitrary: i)
  case 0
  then have "i = n" by simp
  then show ?case by (subst linear_sieve_loop.simps) simp
next
  case (Suc d)
  then have lt: "i < n" and d: "d = nat (n - (i + 1))" by linarith+
  have IH: "linear_sieve_loop n (i + 1) (sieve_state_at n cap (i + 1)) =
              (if i + 1 < n \<and> int cap \<le> 2 * n - 5 then Inl OutOfBounds
               else Inr (sieve_state_at n cap n))"
    using Suc.hyps(1) [OF d] Suc.prems lt by simp
  show ?case
    using lt Suc.prems linear_sieve_emit_at [of i n cap] linear_sieve_inner_at [of i n cap] IH
    by (subst linear_sieve_loop.simps) auto
qed

lemma linear_sieve_run_zeros:
  assumes "2 \<le> n"
  shows "linear_sieve_run n (replicate cap 0) =
           (if 2 < n \<and> int cap \<le> 2 * n - 5 then Inl OutOfBounds else Inr (sieve_state_at n cap n))"
proof -
  have init: "\<lparr>least_divisors = replicate (nat (n + 1)) 0, out_buf = replicate cap 0, out_pos = 0\<rparr>
        = sieve_state_at n cap 2"
    by (simp add: sieve_state_at_def) (intro conjI nth_equalityI; simp)
  show ?thesis
    using assms linear_sieve_loop_at [of 2 n cap]
    by (simp add: linear_sieve_run_def init)
qed

lemma linear_sieve_zeros:
  assumes "2 \<le> n"
  shows "linear_sieve n (replicate cap 0) =
           (if 2 < n \<and> int cap \<le> 2 * n - 5 then Inl OutOfBounds
            else Inr (map (\<lambda>k. if int k < n - 2 then int k + 2 else 0) [0..<cap], nat (n - 2)))"
  using linear_sieve_run_zeros [OF assms, of cap]
  by (simp add: linear_sieve_def sieve_state_at_def)

lemma linear_sieve_container_fails:
  assumes "4 \<le> n"
  shows "linear_sieve_container n [] = Inl OutOfBounds"
proof -
  obtain c where c: "upper_bound_prime_count n = Inr c" "0 \<le> c" "c < n"
    using upper_bound_prime_count_less [OF assms] by blast
  have "int (nat c) \<le> 2 * n - 5" using c assms by simp
  then have "linear_sieve n (replicate (nat c) 0) = Inl OutOfBounds"
    using linear_sieve_zeros [of n "nat c"] assms by simp
  then show ?thesis using c by (simp add: linear_sieve_container_def resize_def)
qed

lemma linear_sieve_container_3: "linear_sieve_container 3 [] = Inr [2]"
proof -
  have "linear_sieve 3 (replicate 3 0) = Inr ([2, 0, 0], 1)"
    using linear_sieve_zeros [of 3 3] by (simp add: upt_rec)
  then show ?thesis
    by (simp add: linear_sieve_container_def upper_bound_prime_count_3 resize_def)
qed

subsection \<open>The trimming scan\<close>

lemma prime_range_scan_from:
  "prime_range_scan lower_bound (pre @ xs) (length pre) =
     (if list_ex (\<lambda>p. \<not> p < lower_bound) xs
      then Inr (length pre + length (takeWhile (\<lambda>p. p < lower_bound) xs))
      else Inl OutOfBounds)"
proof (induction xs arbitrary: pre)
  case Nil
  then show ?case by (subst prime_range_scan.simps) simp
next
  case (Cons x xs)
  show ?case
  proof (cases "x < lower_bound")
    case False
    then show ?thesis by (subst prime_range_scan.simps) simp
  next
    case True
    have "prime_range_scan lower_bound (pre @ x # xs) (length pre)
            = prime_range_scan lower_bound ((pre @ [x]) @ xs) (length (pre @ [x]))"
      using True by (subst prime_range_scan.simps) simp
    also have "\<dots> = (if list_ex (\<lambda>p. \<not> p < lower_bound) xs
                      then Inr (length (pre @ [x]) + length (takeWhile (\<lambda>p. p < lower_bound) xs))
                      else Inl OutOfBounds)"
      by (rule Cons.IH)
    finally show ?thesis using True by simp
  qed
qed

lemma prime_range_trim_eq:
  "prime_range_trim lower_bound primes =
     (if list_ex (\<lambda>p. \<not> p < lower_bound) primes
      then Inr (dropWhile (\<lambda>p. p < lower_bound) primes)
      else Inl OutOfBounds)"
  using prime_range_scan_from [of lower_bound "[]" primes]
  by (simp add: prime_range_trim_def dropWhile_eq_drop)

subsection \<open>Windows\<close>

lemma first_multiple_le:
  assumes "0 < p" "p dvd x" "lo \<le> x"
  shows "(lo + p - 1) div p * p \<le> (x::int)"
proof -
  obtain k where k: "x = p * k" using assms(2) by (auto simp: dvd_def)
  have "(lo + p - 1) div p \<le> (p * k + (p - 1)) div p"
    using assms k by (intro zdiv_mono1) simp_all
  also have "\<dots> = k" using assms(1) by simp
  finally have "(lo + p - 1) div p * p \<le> k * p"
    using assms(1) by (simp add: mult_right_mono)
  then show ?thesis using k by (simp add: mult.commute)
qed

lemma interval_sieve_cleared_window:
  assumes "list_all (\<lambda>p. 0 < p) base_primes" "lo \<le> x"
  shows "interval_sieve_cleared lo base_primes x = list_ex (\<lambda>p. p dvd x \<and> p * p \<le> x) base_primes"
  using assms first_multiple_le [of _ x lo]
  by (auto simp: interval_sieve_cleared_def interval_sieve_start_def list_all_iff list_ex_iff)

lemma interval_sieve_append:
  "interval_sieve lo hi base_primes output = output @ interval_sieve lo hi base_primes []"
  by (simp add: interval_sieve_def)

lemma interval_sieve_split:
  assumes pos: "list_all (\<lambda>p. 0 < p) base_primes" and lo: "1 \<le> lo" and m: "lo \<le> m" "m \<le> hi"
  shows "interval_sieve lo m base_primes [] @ interval_sieve m hi base_primes []
           = interval_sieve lo hi base_primes []"
proof -
  have split: "[lo..hi - 1] = [lo..m - 1] @ [m..hi - 1]"
  proof (cases "lo = m")
    case True
    then show ?thesis by simp
  next
    case False
    then show ?thesis using m upto_split2 [of lo "m - 1" "hi - 1"] by simp
  qed
  have same: "filter (\<lambda>x. \<not> (m = 1 \<and> x = m) \<and> \<not> interval_sieve_cleared m base_primes x) [m..hi - 1]
            = filter (\<lambda>x. \<not> (lo = 1 \<and> x = lo) \<and> \<not> interval_sieve_cleared lo base_primes x) [m..hi - 1]"
  proof (rule filter_cong [OF refl])
    fix x assume "x \<in> set [m..hi - 1]"
    then have x: "m \<le> x" by simp
    have "interval_sieve_cleared m base_primes x = interval_sieve_cleared lo base_primes x"
      using pos x m by (simp add: interval_sieve_cleared_window)
    moreover have "(m = 1 \<and> x = m) = (lo = 1 \<and> x = lo)" using lo m x by auto
    ultimately show "(\<not> (m = 1 \<and> x = m) \<and> \<not> interval_sieve_cleared m base_primes x)
                   = (\<not> (lo = 1 \<and> x = lo) \<and> \<not> interval_sieve_cleared lo base_primes x)"
      by simp
  qed
  show ?thesis unfolding interval_sieve_def split filter_append same by simp
qed

lemma windows_concat:
  assumes "list_all (\<lambda>p. 0 < p) base_primes" "1 \<le> lo" "sorted (lo # cuts @ [hi])"
  shows "concat (map (\<lambda>(a, b). interval_sieve a b base_primes []) (windows_of lo cuts hi))
           = interval_sieve lo hi base_primes []"
  using assms(2,3)
proof (induction cuts arbitrary: lo)
  case Nil
  then show ?case by simp
next
  case (Cons c cuts)
  then have c: "lo \<le> c" "c \<le> hi" "1 \<le> c" "sorted (c # cuts @ [hi])" by auto
  have "concat (map (\<lambda>(a, b). interval_sieve a b base_primes []) (windows_of lo (c # cuts) hi))
          = interval_sieve lo c base_primes [] @ interval_sieve c hi base_primes []"
    using Cons.IH [OF c(3,4)] by simp
  also have "\<dots> = interval_sieve lo hi base_primes []"
    using assms(1) Cons.prems(1) c(1,2) by (rule interval_sieve_split)
  finally show ?case .
qed

lemma segmented_sieve_tasks_windows:
  "segmented_sieve_tasks k a b primes = (vs, l) \<Longrightarrow>
     vs @ [interval_sieve l hi primes []]
       = map (\<lambda>(x, y). interval_sieve x y primes []) (windows_of a (window_cuts k b) hi)"
proof (induction k arbitrary: a b vs l)
  case 0
  then show ?case by simp
next
  case (Suc k)
  obtain vs' l' where r: "segmented_sieve_tasks k b (b + interval) primes = (vs', l')"
    by (cases "segmented_sieve_tasks k b (b + interval) primes")
  with Suc.prems have "vs = interval_sieve a b primes [] # vs'" "l = l'" by simp_all
  then show ?case using Suc.IH [OF r] by simp
qed

lemma interval_pos: "0 < interval" by (simp add: interval_def L1_SIZE_def)

lemma segmented_sieve_primes_windows:
  assumes "2 \<le> lower_bound" "lower_bound \<le> upper_bound"
  shows "segmented_sieve_primes lower_bound upper_bound primes resultant_primes =
           Inr (resultant_primes @ concat (map (\<lambda>(a, b). interval_sieve a b primes [])
                  (windows_of lower_bound (segmented_sieve_cuts lower_bound upper_bound) upper_bound)))"
proof -
  let ?r = "nat ((upper_bound - lower_bound) div interval)"
  let ?b = "if lower_bound + interval > upper_bound then upper_bound else lower_bound + interval"
  have nn: "0 \<le> (upper_bound - lower_bound) div interval"
    using assms interval_pos by (simp add: pos_imp_zdiv_nonneg_iff)
  have sd: "(upper_bound - lower_bound) sdiv interval = (upper_bound - lower_bound) div interval"
    using assms interval_pos by (simp add: signed_divide_int_def sgn_if)
  have "lower_bound \<le> ?b" using assms(2) interval_pos by simp
  then obtain hint where hint: "primes_in_range lower_bound ?b = Inr hint"
    using primes_in_range_defined [OF assms(1)] by blast
  have cuts: "window_cuts ?r ?b = window_cuts ?r (lower_bound + interval)"
  proof (cases "lower_bound + interval > upper_bound")
    case True
    then have "(upper_bound - lower_bound) div interval = 0"
      using assms by (simp add: div_pos_pos_trivial)
    then show ?thesis by simp
  next
    case False
    then show ?thesis by simp
  qed
  obtain vs l where t: "segmented_sieve_tasks ?r lower_bound ?b primes = (vs, l)"
    by (cases "segmented_sieve_tasks ?r lower_bound ?b primes")
  have eq: "vs @ [interval_sieve l upper_bound primes []]
          = map (\<lambda>(x, y). interval_sieve x y primes [])
              (windows_of lower_bound (window_cuts ?r (lower_bound + interval)) upper_bound)"
    using t segmented_sieve_tasks_windows [of ?r lower_bound ?b primes vs l upper_bound]
    by (simp only: cuts)
  have "segmented_sieve_primes lower_bound upper_bound primes resultant_primes
          = Inr (resultant_primes @ concat (vs @ [interval_sieve l upper_bound primes []]))"
    using t nn sd hint by (simp add: segmented_sieve_primes_def to_size_t_def)
  then show ?thesis
    by (simp only: eq segmented_sieve_cuts_def)
qed

lemma window_cuts_sorted:
  "a \<le> hi \<Longrightarrow> a \<le> c \<Longrightarrow> c + int k * interval \<le> hi + interval \<Longrightarrow>
     sorted (a # window_cuts k c @ [hi])"
proof (induction k arbitrary: a c)
  case 0
  then show ?case by simp
next
  case (Suc k)
  have "0 \<le> int k * interval" using interval_pos by simp
  then have c: "c \<le> hi" using Suc.prems(3) by (simp add: algebra_simps)
  have "sorted (c # window_cuts k (c + interval) @ [hi])"
    using Suc.prems c interval_pos by (intro Suc.IH) (simp_all add: algebra_simps)
  then show ?case using Suc.prems(2) by auto
qed

lemma segmented_sieve_cuts_sorted:
  assumes "lower_bound \<le> upper_bound"
  shows "sorted (lower_bound # segmented_sieve_cuts lower_bound upper_bound @ [upper_bound])"
proof -
  let ?d = "upper_bound - lower_bound"
  have nn: "0 \<le> ?d div interval"
    using assms interval_pos by (simp add: pos_imp_zdiv_nonneg_iff)
  have "?d div interval * interval \<le> ?d"
    using interval_pos by (metis div_mult_mod_eq le_add_same_cancel1 pos_mod_sign)
  then have "lower_bound + interval + int (nat (?d div interval)) * interval \<le> upper_bound + interval"
    using nn by simp
  then show ?thesis
    unfolding segmented_sieve_cuts_def
    using assms interval_pos by (intro window_cuts_sorted) simp_all
qed

text \<open>
  From the lower bound 2 on, \<^verbatim>\<open>segmented_sieve\<close> with positive base primes appends what
  one \<^verbatim>\<open>IntervalSieve\<close> over the whole range emits.
\<close>

lemma segmented_sieve_primes_one_sieve:
  assumes "list_all (\<lambda>p. 0 < p) primes" and "2 \<le> lower_bound" and "lower_bound \<le> upper_bound"
  shows "segmented_sieve_primes lower_bound upper_bound primes resultant_primes
           = Inr (resultant_primes @ interval_sieve lower_bound upper_bound primes [])"
proof -
  have "sorted (lower_bound # segmented_sieve_cuts lower_bound upper_bound @ [upper_bound])"
    using assms(3) by (rule segmented_sieve_cuts_sorted)
  then have "concat (map (\<lambda>(a, b). interval_sieve a b primes [])
                       (windows_of lower_bound (segmented_sieve_cuts lower_bound upper_bound)
                          upper_bound))
               = interval_sieve lower_bound upper_bound primes []"
    using assms(1,2) by (intro windows_concat) simp_all
  then show ?thesis
    using segmented_sieve_primes_windows [OF assms(2,3), of primes resultant_primes] by simp
qed

subsection \<open>\<^verbatim>\<open>mask_sieve\<close> keeps the entry of the upper bound\<close>

text \<open>
  The marking loop only writes entries below \<open>upper_bound - lower_bound\<close>, and the
  collecting loop appends every \<open>i\<close> from \<open>lower_bound\<close> up to and with
  \<open>upper_bound\<close> whose entry is set: the upper bound is the last element appended.
\<close>

lemma mask_sieve_mark_keeps:
  "mask_sieve_mark lower_bound upper_bound prime j is_prime = Inr marked \<Longrightarrow>
     length marked = length is_prime
     \<and> (\<forall>k. upper_bound - lower_bound \<le> int k \<longrightarrow> marked ! k = is_prime ! k)"
proof (induction lower_bound upper_bound prime j is_prime rule: mask_sieve_mark.induct)
  case (1 lower_bound upper_bound prime j is_prime)
  show ?case
  proof (cases "j < upper_bound \<and> in_bounds is_prime (j - lower_bound) \<and> prime \<noteq> 0")
    case False
    then show ?thesis using "1.prems"
      by (subst (asm) mask_sieve_mark.simps) (auto split: if_splits)
  next
    case True
    then have r: "mask_sieve_mark lower_bound upper_bound prime (j + prime)
                     (is_prime[nat (j - lower_bound) := False]) = Inr marked"
      using "1.prems" by (subst (asm) mask_sieve_mark.simps) simp
    have IH: "length marked = length (is_prime[nat (j - lower_bound) := False])
              \<and> (\<forall>k. upper_bound - lower_bound \<le> int k \<longrightarrow>
                     marked ! k = is_prime[nat (j - lower_bound) := False] ! k)"
      using "1.IH" True r by simp
    have "\<And>k. upper_bound - lower_bound \<le> int k \<Longrightarrow> nat (j - lower_bound) \<noteq> k"
      using True by (auto simp: in_bounds_def)
    then show ?thesis using IH by simp
  qed
qed

lemma mask_sieve_each_keeps:
  "mask_sieve_each lower_bound upper_bound primes is_prime = Inr marked \<Longrightarrow>
     length marked = length is_prime
     \<and> (\<forall>k. upper_bound - lower_bound \<le> int k \<longrightarrow> marked ! k = is_prime ! k)"
proof (induction primes arbitrary: is_prime)
  case Nil
  then show ?case by simp
next
  case (Cons prime rest)
  from Cons.prems obtain mid where
    mid: "mask_sieve_mark lower_bound upper_bound prime (mask_sieve_first lower_bound prime)
            is_prime = Inr mid"
    and rest: "mask_sieve_each lower_bound upper_bound rest mid = Inr marked"
    by (auto simp del: mask_sieve_mark.simps split: if_splits sum.splits)
  show ?case
    using mask_sieve_mark_keeps [OF mid] Cons.IH [OF rest] by simp
qed

lemma mask_sieve_collect_eq:
  "length is_prime = nat (upper_bound - lower_bound + 1) \<Longrightarrow> lower_bound \<le> i \<Longrightarrow>
     mask_sieve_collect lower_bound upper_bound i is_prime resultant_primes =
       Inr (resultant_primes @ filter (\<lambda>x. is_prime ! nat (x - lower_bound)) [i..upper_bound])"
proof (induction lower_bound upper_bound i is_prime resultant_primes rule: mask_sieve_collect.induct)
  case (1 lower_bound upper_bound i is_prime resultant_primes)
  show ?case
  proof (cases "i \<le> upper_bound")
    case False
    then show ?thesis by (subst mask_sieve_collect.simps) simp
  next
    case True
    then have ib: "in_bounds is_prime (i - lower_bound)"
      using "1.prems" by (simp add: in_bounds_def)
    have up: "[i..upper_bound] = i # [i + 1..upper_bound]"
      using True by (simp add: upto_rec1)
    show ?thesis
      using True ib "1.IH" "1.prems" up
      by (subst mask_sieve_collect.simps) simp
  qed
qed

lemma mask_sieve_primes_last:
  assumes "mask_sieve_primes lower_bound upper_bound primes resultant_primes = Inr xs"
    and "lower_bound \<le> upper_bound" and "upper_bound \<noteq> 1"
  shows "xs \<noteq> [] \<and> last xs = upper_bound"
proof -
  let ?n = "nat (upper_bound - lower_bound + 1)"
  let ?k = "nat (upper_bound - lower_bound)"
  from assms(1) obtain r marked where
    fr: "floor_sqrt upper_bound = Inr r" and
    each: "mask_sieve_each lower_bound upper_bound (takeWhile (\<lambda>p. p < r + 1) primes)
             (replicate ?n True) = Inr marked"
    using assms(2)
    by (auto simp: mask_sieve_primes_def to_size_t_def
             simp del: mask_sieve_collect.simps split: sum.splits if_splits)
  have len: "length marked = ?n" and top: "marked ! ?k = True"
    using mask_sieve_each_keeps [OF each] assms(2) by simp_all
  define final where "final = (if lower_bound = 1 then marked[0 := False] else marked)"
  have flen: "length final = ?n" by (simp add: final_def len)
  have ftop: "final ! ?k" 
    using top assms(2,3) by (auto simp: final_def nth_list_update)
  have "mask_sieve_primes lower_bound upper_bound primes resultant_primes
          = mask_sieve_collect lower_bound upper_bound lower_bound final resultant_primes"
    using assms(2) fr each len
    by (simp add: mask_sieve_primes_def to_size_t_def final_def
             del: mask_sieve_collect.simps)
  also have "\<dots> = Inr (resultant_primes
                       @ filter (\<lambda>x. final ! nat (x - lower_bound)) [lower_bound..upper_bound])"
    using flen by (intro mask_sieve_collect_eq) simp_all
  finally have xs: "xs = resultant_primes
                      @ filter (\<lambda>x. final ! nat (x - lower_bound)) [lower_bound..upper_bound]"
    using assms(1) by simp
  have "[lower_bound..upper_bound] = [lower_bound..upper_bound - 1] @ [upper_bound]"
    using assms(2) by (simp add: upto_rec2)
  then show ?thesis using xs ftop by simp
qed

subsection \<open>The operations that start with \<^verbatim>\<open>linear_sieve_container\<close>\<close>

text \<open>
  Every public operation sieves its first primes with \<^verbatim>\<open>linear_sieve_container\<close> on
  a vector that is empty or new; from the bound 4 on that call reads outside the vector.
\<close>

lemma prime_sieve_fails:
  assumes "4 \<le> n"
  shows "prime_sieve policy n [] = Inl OutOfBounds"
  using assms
  by (simp add: prime_sieve_def linear_sieve_limit_def linear_sieve_container_fails)

lemma prime_range_fails:
  assumes "4 \<le> hi"
  shows "prime_range policy lo hi [] = Inl OutOfBounds"
proof -
  obtain r where r: "floor_sqrt hi = Inr r" "2 \<le> r"
    using floor_sqrt_ge [of 2 hi] assms by auto
  have "prime_range_sieve policy (r + 1) lo hi [] = Inl OutOfBounds"
  proof (cases "hi \<le> 4096")
    case True
    then show ?thesis using assms
      by (simp add: prime_range_sieve_def linear_sieve_limit_def linear_sieve_container_fails)
  next
    case False
    then obtain s where s: "floor_sqrt hi = Inr s" "64 \<le> s"
      using floor_sqrt_ge [of 64 hi] by auto
    then have "4 \<le> r + 1" using r by simp
    then show ?thesis using False
      by (simp add: prime_range_sieve_def linear_sieve_limit_def linear_sieve_container_fails)
  qed
  then show ?thesis using r assms by (simp add: prime_range_def)
qed

lemma mask_sieve_fails:
  assumes "9 \<le> hi"
  shows "mask_sieve lo hi [] = Inl OutOfBounds"
proof -
  obtain r where r: "floor_sqrt hi = Inr r" "3 \<le> r"
    using floor_sqrt_ge [of 3 hi] assms by auto
  then show ?thesis by (simp add: mask_sieve_def linear_sieve_container_fails)
qed

lemma segmented_sieve_fails:
  assumes "9 \<le> hi"
  shows "segmented_sieve lo hi [] = Inl OutOfBounds"
proof -
  obtain r where r: "floor_sqrt hi = Inr r" "3 \<le> r"
    using floor_sqrt_ge [of 3 hi] assms by auto
  have "0 \<le> real_of_int (r + 1) / ln (real_of_int (r + 1))"
    using r(2) by simp
  then have "\<not> real_of_int (r + 1) / ln (real_of_int (r + 1)) \<le> - 1" by linarith
  then show ?thesis
    using r
    by (simp add: segmented_sieve_def x_over_log_def double_to_size_t_def
          linear_sieve_limit_def linear_sieve_container_fails)
qed

subsection \<open>Values of the floating-point expressions used below\<close>

lemma floor_sqrt_0: "floor_sqrt 0 = Inr 0"
  by (rule floor_sqrt_eq) simp_all

lemma linear_sieve_container_0: "linear_sieve_container 0 [] = Inr []"
  by (simp add: linear_sieve_container_def upper_bound_prime_count_def linear_sieve_def
        linear_sieve_run_def resize_def)

lemma floor_sqrt_2: "floor_sqrt 2 = Inr 1"
  by (rule floor_sqrt_eq) simp_all

lemma floor_sqrt_3: "floor_sqrt 3 = Inr 1"
  by (rule floor_sqrt_eq) simp_all

lemma floor_sqrt_4: "floor_sqrt 4 = Inr 2"
  by (rule floor_sqrt_eq) simp_all

lemma floor_sqrt_10: "floor_sqrt 10 = Inr 3"
  by (rule floor_sqrt_eq) simp_all

lemma floor_sqrt_30: "floor_sqrt 30 = Inr 5"
  by (rule floor_sqrt_eq) simp_all

lemma floor_sqrt_100: "floor_sqrt 100 = Inr 10"
  by (rule floor_sqrt_eq) simp_all

section \<open>The claims\<close>

text \<open>
  Claim C1: for every \<open>n \<ge> 2\<close>, \<^verbatim>\<open>linear_sieve(n)\<close> returns exactly the integers of
  \<open>[2, n)\<close> that have no divisor other than 1 and themselves, in ascending order.

  The code does not: its inner loop reads \<^verbatim>\<open>resultant_primes[j]\<close> through the iterator
  it has already advanced, so it never sees a prime it has found. With the container as
  \<^verbatim>\<open>linear_sieve_container\<close> sizes it (5 elements for the bound 10), the reads leave
  the storage; on a storage of zeros that is large enough, every integer from 2 on is
  written as a prime, where the specification's primes below 10 are 2, 3, 5 and 7.
\<close>

theorem linear_sieve_writes_every_integer:
  "upper_bound_prime_count 10 = Inr 5
   \<and> linear_sieve_container 10 [] = Inl OutOfBounds
   \<and> linear_sieve 10 (replicate 16 0) = Inr ([2, 3, 4, 5, 6, 7, 8, 9, 0, 0, 0, 0, 0, 0, 0, 0], 8)
   \<and> primes_between 2 10 = [2, 3, 5, 7]"
proof -
  have "linear_sieve_container 10 [] = Inl OutOfBounds"
    by (rule linear_sieve_container_fails) simp
  moreover note upper_bound_prime_count_10
  moreover have "linear_sieve 10 (replicate 16 0)
                   = Inr ([2, 3, 4, 5, 6, 7, 8, 9, 0, 0, 0, 0, 0, 0, 0, 0], 8)"
    by code_simp
  moreover have "primes_between 2 10 = [2, 3, 5, 7]"
    by code_simp
  ultimately show ?thesis by simp
qed

text \<open>
  Claim C2: for \<open>0 \<le> lo \<le> hi\<close> and every policy, \<^verbatim>\<open>prime_range(lo, hi)\<close> returns the
  sequence of \<^verbatim>\<open>prime_sieve(hi)\<close> without the values below \<open>lo\<close>.

  At \<open>lo = hi = 0\<close> the code does not: \<^verbatim>\<open>prime_sieve(0)\<close> returns the empty sequence,
  and \<^verbatim>\<open>prime_range(0, 0)\<close> sieves the same empty sequence and then reads \<^verbatim>\<open>*it\<close> at
  the start of its trimming scan, on a vector that has no element.
\<close>

theorem prime_range_0_0_differs_from_prime_sieve:
  "prime_sieve policy 0 [] = Inr []
   \<and> filter (\<lambda>p. 0 \<le> p) ([] :: int list) = []
   \<and> prime_range policy 0 0 [] = Inl OutOfBounds"
  by (simp add: prime_sieve_def prime_range_def prime_range_sieve_def prime_range_trim_eq
        floor_sqrt_0 linear_sieve_limit_def linear_sieve_container_0)


text \<open>
  Claim C4: for \<open>2 \<le> lo \<le> hi\<close>, \<^verbatim>\<open>mask_sieve(lo, hi)\<close> appends exactly the primes of
  \<open>[lo, hi)\<close>, in ascending order; \<open>hi\<close> itself is never included.

  The code marks the multiples \<open>j < upper_bound\<close> and then collects \<open>i \<le> upper_bound\<close>:
  the entry of \<open>hi\<close> is never cleared and \<open>hi\<close> is appended. \<^verbatim>\<open>mask_sieve(2, 4)\<close>
  returns 2, 3 and 4; with the base primes 2 and 3 given, the four-argument overload
  appends 10 for the range from 2 to 10.
\<close>

theorem mask_sieve_includes_upper_bound:
  "mask_sieve 2 4 [] = Inr [2, 3, 4]
   \<and> mask_sieve_primes 2 10 [2, 3] [] = Inr [2, 3, 5, 7, 10]
   \<and> primes_between 2 4 = [2, 3]"
proof -
  have a: "mask_sieve_primes 2 4 [2] [] = Inr [2, 3, 4]"
    by (simp add: mask_sieve_primes_def floor_sqrt_4 to_size_t_def mask_sieve_first_def
          signed_divide_int_def in_bounds_def)
  have "mask_sieve 2 4 [] = Inr [2, 3, 4]"
    by (simp add: mask_sieve_def floor_sqrt_4 linear_sieve_container_3 a)
  moreover have "mask_sieve_primes 2 10 [2, 3] [] = Inr [2, 3, 5, 7, 10]"
    by (simp add: mask_sieve_primes_def floor_sqrt_10 to_size_t_def mask_sieve_first_def
          signed_divide_int_def in_bounds_def)
  moreover have "primes_between 2 4 = [2, 3]"
    by code_simp
  ultimately show ?thesis by simp
qed

text \<open>
  Claim C5: for every valid input and policy, each public operation
  (\<^verbatim>\<open>linear_sieve\<close>, \<^verbatim>\<open>mask_sieve\<close>, \<^verbatim>\<open>segmented_sieve\<close>, \<^verbatim>\<open>prime_sieve\<close>,
  \<^verbatim>\<open>prime_range\<close>) produces a strictly increasing sequence into a new container.

  For every upper bound from 4 on (from 9 on for \<^verbatim>\<open>mask_sieve\<close> and
  \<^verbatim>\<open>segmented_sieve\<close>, which sieve up to the square root), every lower bound and every
  policy, none of them produces a sequence: each reaches \<^verbatim>\<open>linear_sieve_container\<close>
  with a bound from 4 on, which reads outside its container.
\<close>

theorem public_operations_fail_from_4_on:
  "linear_sieve_container (4 + int k) [] = Inl OutOfBounds
   \<and> mask_sieve lower_bound (9 + int k) [] = Inl OutOfBounds
   \<and> segmented_sieve lower_bound (9 + int k) [] = Inl OutOfBounds
   \<and> prime_sieve policy (4 + int k) [] = Inl OutOfBounds
   \<and> prime_range policy lower_bound (4 + int k) [] = Inl OutOfBounds"
  by (simp add: linear_sieve_container_fails mask_sieve_fails segmented_sieve_fails
        prime_sieve_fails prime_range_fails)

text \<open>
  Claim C6: for any decomposition of \<open>[lo, hi)\<close> into consecutive windows, sieving each
  window on its own with the same base primes and concatenating the results in ascending
  window order gives the sequence of one sieve over \<open>[lo, hi)\<close>; in particular
  \<^verbatim>\<open>segmented_sieve(lo, hi)\<close> equals the concatenation of the \<^verbatim>\<open>IntervalSieve\<close>
  outputs of its consecutive windows in range order.

  At the lower bound 1 the code does not: before any window is sieved it computes the
  capacity hint \<^verbatim>\<open>primes_in_range\<close>, which divides by \<^verbatim>\<open>log(1) = 0\<close>, and the
  conversion of the infinite result to \<^verbatim>\<open>std::size_t\<close> is undefined. The range
  \<open>[1, 6)\<close> has one window, whose sieve with the base prime 2 emits 2, 3 and 5; from the
  lower bound 2 the code appends just that.
\<close>

theorem segmented_sieve_fails_at_lower_bound_1:
  "segmented_sieve_primes 1 6 [2] [] = Inl FloatDomain
   \<and> concat (map (\<lambda>(a, b). interval_sieve a b [2] []) (windows_of 1 (segmented_sieve_cuts 1 6) 6))
       = [2, 3, 5]
   \<and> segmented_sieve_primes 2 6 [2] [] = Inr [2, 3, 5]"
proof -
  have "segmented_sieve_primes 1 6 [2] [] = Inl FloatDomain"
    by (simp add: segmented_sieve_primes_def to_size_t_def signed_divide_int_def interval_def
          L1_SIZE_def primes_in_range_def x_over_log_def)
  moreover have "concat (map (\<lambda>(a, b). interval_sieve a b [2] [])
                           (windows_of 1 (segmented_sieve_cuts 1 6) 6)) = [2, 3, 5]"
    by code_simp
  moreover have "segmented_sieve_primes 2 6 [2] [] = Inr [2, 3, 5]"
  proof -
    have "interval_sieve 2 6 [2] [] = [2, 3, 5]" by code_simp
    then show ?thesis
      using segmented_sieve_primes_one_sieve [of "[2]" 2 6 "[]"] by simp
  qed
  ultimately show ?thesis by simp
qed

text \<open>
  Claim C7: \<^verbatim>\<open>prime_sieve(2)\<close> produces the empty sequence, \<^verbatim>\<open>prime_sieve(3)\<close>
  produces \<open>[2]\<close>, \<^verbatim>\<open>linear_sieve(10)\<close> produces \<open>[2, 3, 5, 7]\<close> and
  \<^verbatim>\<open>prime_range(10, 30)\<close> produces \<open>[11, 13, 17, 19, 23, 29]\<close>.

  The first two hold of the code. The last two do not: both calls end in
  \<^verbatim>\<open>linear_sieve_container\<close> (with the bounds 10 and 30), which reads outside its
  container.
\<close>

theorem boundary_cases:
  "prime_sieve policy 2 [] = Inr []
   \<and> prime_sieve policy 3 [] = Inr [2]
   \<and> linear_sieve_container 10 [] = Inl OutOfBounds
   \<and> prime_range policy 10 30 [] = Inl OutOfBounds"
  by (simp add: prime_sieve_def prime_range_def prime_range_sieve_def floor_sqrt_30
        linear_sieve_limit_def linear_sieve_container_3 linear_sieve_container_fails)

text \<open>
  Claim C8, as amended: \<^verbatim>\<open>prime_range\<close> and \<^verbatim>\<open>prime_sieve\<close> do not check their
  bounds. With \<^verbatim>\<open>upper_bound == 2\<close> both return at once, without an error and with
  the container as it was, whatever the lower bound (above the upper bound or negative)
  and the policy are; and \<^verbatim>\<open>prime_range\<close> with the upper bound 3 and any lower bound up
  to 2, negative ones included, returns \<open>[2]\<close>.
\<close>

theorem no_range_validation:
  "prime_range policy lower_bound 2 primes = Inr primes
   \<and> prime_sieve policy 2 primes = Inr primes
   \<and> prime_range policy (2 - int k) 3 [] = Inr [2]"
  by (simp add: prime_range_def prime_sieve_def prime_range_sieve_def prime_range_trim_eq
        floor_sqrt_2 floor_sqrt_3 linear_sieve_limit_def linear_sieve_container_3)

text \<open>
  The claim C8 as it stands, that an invalid range is rejected with an error, fails:
  \<^verbatim>\<open>prime_range(3, 2)\<close>, with the upper bound below the lower one, and
  \<^verbatim>\<open>prime_range(-1, 2)\<close>, with a negative bound, return the empty container they were
  given; \<^verbatim>\<open>mask_sieve(5, 4)\<close> returns an empty sequence as well.
\<close>

theorem invalid_range_counterexample:
  "prime_range Seq 3 2 [] = Inr []
   \<and> prime_range Seq (- 1) 2 [] = Inr []
   \<and> mask_sieve 5 4 [] = Inr []"
  by (simp add: prime_range_def floor_sqrt_2 mask_sieve_def mask_sieve_primes_def floor_sqrt_4
        linear_sieve_container_3 to_size_t_def mask_sieve_first_def signed_divide_int_def
        in_bounds_def)

text \<open>
  Claim C9: during \<^verbatim>\<open>linear_sieve\<close> every composite in range gets its table entry
  exactly once, the entry is its smallest prime factor, and at every point an entry is 0
  or the smallest prime factor of its index.

  The code does not: for the bound 5 the marking loop never writes the entry of 4, the
  outer loop then finds it 0, takes 4 for a prime and sets the entry to 4, whose smallest
  prime factor is 2.
\<close>

theorem least_divisor_of_4_is_4:
  "linear_sieve_run 5 (replicate 6 0)
     = Inr \<lparr>least_divisors = [0, 0, 2, 3, 4, 0], out_buf = [2, 3, 4, 0, 0, 0], out_pos = 3\<rparr>
   \<and> (2::int) dvd 4"
proof -
  have "linear_sieve_run 5 (replicate 6 0)
          = Inr \<lparr>least_divisors = [0, 0, 2, 3, 4, 0], out_buf = [2, 3, 4, 0, 0, 0], out_pos = 3\<rparr>"
    by code_simp
  then show ?thesis by simp
qed

text \<open>
  Claim C10: for \<open>0 \<le> lo \<le> hi\<close> the trimming scan at the end of \<^verbatim>\<open>prime_range\<close>
  reads only valid positions, also when the sequence is empty or all its entries are
  below \<open>lo\<close>.

  The code reads \<^verbatim>\<open>*it\<close> before it compares \<^verbatim>\<open>it\<close> with \<^verbatim>\<open>primes.end()\<close>. The scan
  stops inside the sequence only when it meets an element that is not below \<open>lo\<close>;
  otherwise it reads the position behind the last element: for the empty sequence, for
  the primes below 10 with \<open>lo = 8\<close>, and in \<^verbatim>\<open>prime_range(3, 3)\<close>.
\<close>

theorem trimming_scan_reads_past_the_end:
  "prime_range_trim lower_bound primes =
     (if list_ex (\<lambda>p. \<not> p < lower_bound) primes
      then Inr (dropWhile (\<lambda>p. p < lower_bound) primes)
      else Inl OutOfBounds)
   \<and> prime_range_trim lower_bound [] = Inl OutOfBounds
   \<and> prime_range_trim 8 [2, 3, 5, 7] = Inl OutOfBounds
   \<and> prime_range Seq 3 3 [] = Inl OutOfBounds"
  by (simp add: prime_range_trim_eq prime_range_def prime_range_sieve_def floor_sqrt_3
        linear_sieve_limit_def linear_sieve_container_3)

end
